theory Spec2Isabelle
  imports Main "HOL-Library.AList"
begin

type_synonym data_item = nat

datatype error = AssertionError | ValueError | AttributeError | KeyError | OtherError

definition dict_get :: "('k \<times> 'v) list \<Rightarrow> 'k \<Rightarrow> 'v \<Rightarrow> 'v" where
  "dict_get d k dflt = (case map_of d k of None \<Rightarrow> dflt | Some v \<Rightarrow> v)"

definition dict_set :: "('k \<times> 'v) list \<Rightarrow> 'k \<Rightarrow> 'v \<Rightarrow> ('k \<times> 'v) list" where
  "dict_set d k v = AList.update k v d"

definition dict_setdefault :: "('k \<times> 'v) list \<Rightarrow> 'k \<Rightarrow> 'v \<Rightarrow> ('k \<times> 'v) list" where
  "dict_setdefault d k dflt = (case map_of d k of None \<Rightarrow> d @ [(k, dflt)] | Some v \<Rightarrow> d)"

datatype event =
    EnterTransaction data_item | ExitTransaction data_item
  | EnterLive data_item | ExitLive data_item

record document_model =
  dependent_data_items :: "(data_item \<times> data_item list) list"
  source_data_items :: "(data_item \<times> data_item list) list"
  transactions :: "(data_item \<times> int) list"
  live_data_items :: "(data_item \<times> int) list"
  in_transaction_state :: "data_item \<Rightarrow> bool"
  is_live :: "data_item \<Rightarrow> bool"
  events :: "event list"

definition get_source_data_items :: "'a document_model_scheme \<Rightarrow> data_item \<Rightarrow> data_item list" where
  "get_source_data_items d x = dict_get (source_data_items d) x []"

definition get_dependent_data_items :: "'a document_model_scheme \<Rightarrow> data_item \<Rightarrow> data_item list" where
  "get_dependent_data_items d x = dict_get (dependent_data_items d) x []"

definition enter_transaction_state :: "data_item \<Rightarrow> document_model \<Rightarrow> document_model" where
  "enter_transaction_state x d =
     d\<lparr>in_transaction_state := (in_transaction_state d)(x := True),
       events := events d @ [EnterTransaction x]\<rparr>"

definition exit_transaction_state :: "data_item \<Rightarrow> document_model \<Rightarrow> document_model" where
  "exit_transaction_state x d =
     d\<lparr>in_transaction_state := (in_transaction_state d)(x := False),
       events := events d @ [ExitTransaction x]\<rparr>"

definition enter_live_state :: "data_item \<Rightarrow> document_model \<Rightarrow> document_model" where
  "enter_live_state x d =
     d\<lparr>is_live := (is_live d)(x := True), events := events d @ [EnterLive x]\<rparr>"

definition exit_live_state :: "data_item \<Rightarrow> document_model \<Rightarrow> document_model" where
  "exit_live_state x d =
     d\<lparr>is_live := (is_live d)(x := False), events := events d @ [ExitLive x]\<rparr>"

definition zero_weight :: "(data_item \<times> int) list \<Rightarrow> (data_item \<times> data_item list) list \<Rightarrow> nat" where
  "zero_weight counts deps = (\<Sum>k \<in> fst ` set deps. nat (1 - dict_get counts k 0))"

definition count_weight :: "(data_item \<times> int) list \<Rightarrow> nat" where
  "count_weight counts = sum_list (map (\<lambda>p. nat (snd p)) counts)"

function begin_transactions :: "data_item list \<Rightarrow> document_model \<Rightarrow> document_model" where
  "begin_transactions [] d = d"
| "begin_transactions (x # todo) d =
     (let old_transaction_count = dict_get (transactions d) x 0;
          d1 = d\<lparr>transactions := dict_set (transactions d) x (old_transaction_count + 1)\<rparr>
      in if old_transaction_count = 0
         then begin_transactions (get_dependent_data_items d1 x @ todo) (enter_transaction_state x d1)
         else begin_transactions todo d1)"
  by pat_completeness auto

lemma dict_get_set: "dict_get (dict_set d k v) k' dflt = (if k' = k then v else dict_get d k' dflt)"
  by (simp add: dict_get_def dict_set_def update_conv')

lemma dict_get_absent: "k \<notin> fst ` set d \<Longrightarrow> dict_get d k dflt = dflt"
  by (simp add: dict_get_def map_of_eq_None_iff[THEN iffD2])

lemma zero_weight_set_le:
  "dict_get counts x 0 \<le> v \<Longrightarrow> zero_weight (dict_set counts x v) deps \<le> zero_weight counts deps"
  unfolding zero_weight_def by (rule sum_mono) (auto simp: dict_get_set)

lemma zero_weight_set_less:
  assumes "x \<in> fst ` set deps" "dict_get counts x 0 = 0"
  shows "zero_weight (dict_set counts x 1) deps < zero_weight counts deps"
  unfolding zero_weight_def
proof (rule sum_strict_mono_ex1)
  show "finite (fst ` set deps)" by simp
  show "\<forall>k\<in>fst ` set deps. nat (1 - dict_get (dict_set counts x 1) k 0) \<le> nat (1 - dict_get counts k 0)"
    using assms by (auto simp: dict_get_set)
  show "\<exists>a\<in>fst ` set deps. nat (1 - dict_get (dict_set counts x 1) a 0) < nat (1 - dict_get counts a 0)"
    using assms by (auto simp: dict_get_set intro!: bexI[of _ x])
qed

termination begin_transactions
proof (relation "measures [\<lambda>(todo, d). zero_weight (transactions d) (dependent_data_items d), \<lambda>(todo, d). length todo]", goal_cases)
  case 1
  then show ?case by simp
next
  case (2 x todo d old d1)
  show ?case
  proof (cases "x \<in> fst ` set (dependent_data_items d)")
    case True
    with 2 show ?thesis
      by (simp add: enter_transaction_state_def zero_weight_set_less)
  next
    case False
    then have "get_dependent_data_items d1 x = []"
      using 2 by (simp add: get_dependent_data_items_def dict_get_absent)
    moreover have "zero_weight (transactions d1) (dependent_data_items d1) \<le> zero_weight (transactions d) (dependent_data_items d)"
      using 2 by (simp add: zero_weight_set_le)
    ultimately show ?thesis using 2
      by (auto simp add: enter_transaction_state_def)
  qed
next
  case (3 x todo d old d1)
  have "zero_weight (transactions d1) (dependent_data_items d1) \<le> zero_weight (transactions d) (dependent_data_items d)"
    using 3 by (simp add: zero_weight_set_le)
  then show ?case by auto
qed


definition begin_data_item_transaction :: "document_model \<Rightarrow> data_item \<Rightarrow> document_model" where
  "begin_data_item_transaction d data_item = begin_transactions [data_item] d"

datatype task = End data_item | Exit data_item

function end_transactions :: "task list \<Rightarrow> document_model \<Rightarrow> error \<times> document_model + document_model" where
  "end_transactions [] d = Inr d"
| "end_transactions (Exit x # todo) d = end_transactions todo (exit_transaction_state x d)"
| "end_transactions (End x # todo) d =
     (let transaction_count = dict_get (transactions d) x 0 - 1
      in if \<not> transaction_count \<ge> 0 then Inl (AssertionError, d)
         else let d1 = d\<lparr>transactions := dict_set (transactions d) x transaction_count\<rparr>
              in if transaction_count = 0
                 then end_transactions (map End (get_dependent_data_items d1 x) @ Exit x # todo) d1
                 else end_transactions todo d1)"
  by pat_completeness auto

lemma count_weight_update:
  "map_of counts x = Some v \<Longrightarrow>
   count_weight (AList.update x v' counts) + nat v = count_weight counts + nat v'"
  by (induction counts) (auto simp: count_weight_def)

lemma count_weight_decrement:
  assumes "0 \<le> dict_get counts x 0 - 1"
  shows "count_weight (dict_set counts x (dict_get counts x 0 - 1)) < count_weight counts"
proof (cases "map_of counts x")
  case None
  with assms show ?thesis by (simp add: dict_get_def)
next
  case (Some v)
  with assms have "1 \<le> v" by (simp add: dict_get_def)
  with count_weight_update [OF Some, of "v - 1"] Some show ?thesis
    by (simp add: dict_get_def dict_set_def)
qed

termination end_transactions
proof (relation "measures [\<lambda>(todo, d). count_weight (transactions d), \<lambda>(todo, d). length todo]", goal_cases)
  case 1
  then show ?case by simp
next
  case (2 x todo d)
  then show ?case by (simp add: exit_transaction_state_def)
next
  case (3 x todo d c d1)
  then show ?case using count_weight_decrement [of "transactions d" x] by simp
next
  case (4 x todo d c d1)
  then show ?case using count_weight_decrement [of "transactions d" x] by simp
qed

definition end_data_item_transaction :: "document_model \<Rightarrow> data_item \<Rightarrow> error \<times> document_model + document_model" where
  "end_data_item_transaction d data_item = end_transactions [End data_item] d"


function begin_lives :: "data_item list \<Rightarrow> document_model \<Rightarrow> document_model" where
  "begin_lives [] d = d"
| "begin_lives (x # todo) d =
     (let old_live_count = dict_get (live_data_items d) x 0;
          d1 = d\<lparr>live_data_items := dict_set (live_data_items d) x (old_live_count + 1)\<rparr>
      in if old_live_count = 0
         then begin_lives (get_dependent_data_items d1 x @ todo) (enter_live_state x d1)
         else begin_lives todo d1)"
  by pat_completeness auto

termination begin_lives
proof (relation "measures [\<lambda>(todo, d). zero_weight (live_data_items d) (dependent_data_items d), \<lambda>(todo, d). length todo]", goal_cases)
  case 1
  then show ?case by simp
next
  case (2 x todo d old d1)
  show ?case
  proof (cases "x \<in> fst ` set (dependent_data_items d)")
    case True
    with 2 show ?thesis
      by (simp add: enter_live_state_def zero_weight_set_less)
  next
    case False
    then have "get_dependent_data_items d1 x = []"
      using 2 by (simp add: get_dependent_data_items_def dict_get_absent)
    moreover have "zero_weight (live_data_items d1) (dependent_data_items d1) \<le> zero_weight (live_data_items d) (dependent_data_items d)"
      using 2 by (simp add: zero_weight_set_le)
    ultimately show ?thesis using 2
      by (auto simp add: enter_live_state_def)
  qed
next
  case (3 x todo d old d1)
  have "zero_weight (live_data_items d1) (dependent_data_items d1) \<le> zero_weight (live_data_items d) (dependent_data_items d)"
    using 3 by (simp add: zero_weight_set_le)
  then show ?case by auto
qed

definition begin_data_item_live :: "document_model \<Rightarrow> data_item \<Rightarrow> document_model" where
  "begin_data_item_live d data_item = begin_lives [data_item] d"

function end_lives :: "data_item list \<Rightarrow> document_model \<Rightarrow> error \<times> document_model + document_model" where
  "end_lives [] d = Inr d"
| "end_lives (x # todo) d =
     (let live_count = dict_get (live_data_items d) x 0 - 1
      in if \<not> live_count \<ge> 0 then Inl (AssertionError, d)
         else let d1 = d\<lparr>live_data_items := dict_set (live_data_items d) x live_count\<rparr>
              in if live_count = 0
                 then end_lives (get_dependent_data_items d1 x @ todo) (exit_live_state x d1)
                 else end_lives todo d1)"
  by pat_completeness auto

termination end_lives
proof (relation "measures [\<lambda>(todo, d). count_weight (live_data_items d), \<lambda>(todo, d). length todo]", goal_cases)
  case 1
  then show ?case by simp
next
  case (2 x todo d c d1)
  then show ?case using count_weight_decrement [of "live_data_items d" x]
    by (simp add: exit_live_state_def)
next
  case (3 x todo d c d1)
  then show ?case using count_weight_decrement [of "live_data_items d" x] by simp
qed

definition end_data_item_live :: "document_model \<Rightarrow> data_item \<Rightarrow> error \<times> document_model + document_model" where
  "end_data_item_live d data_item = end_lives [data_item] d"

definition list_remove :: "'a list \<Rightarrow> 'a \<Rightarrow> error + 'a list" where
  "list_remove xs x = (if x \<in> set xs then Inr (remove1 x xs) else Inl ValueError)"

definition remove_dependency ::
  "document_model \<Rightarrow> data_item \<Rightarrow> data_item \<Rightarrow> error \<times> document_model + document_model" where
  "remove_dependency d source_data_item target_data_item =
     (let d1 = d\<lparr>dependent_data_items := dict_setdefault (dependent_data_items d) source_data_item []\<rparr>
      in case list_remove (dict_get (dependent_data_items d1) source_data_item []) target_data_item of
           Inl e \<Rightarrow> Inl (e, d1)
         | Inr targets \<Rightarrow>
             let d2 = d1\<lparr>dependent_data_items := dict_set (dependent_data_items d1) source_data_item targets\<rparr>;
                 d3 = d2\<lparr>source_data_items := dict_setdefault (source_data_items d2) target_data_item []\<rparr>
             in case list_remove (dict_get (source_data_items d3) target_data_item []) source_data_item of
                  Inl e \<Rightarrow> Inl (e, d3)
                | Inr sources \<Rightarrow>
                    let d4 = d3\<lparr>source_data_items := dict_set (source_data_items d3) target_data_item sources\<rparr>
                    in case (if in_transaction_state d4 source_data_item
                             then end_data_item_transaction d4 target_data_item else Inr d4) of
                         Inl e \<Rightarrow> Inl e
                       | Inr d5 \<Rightarrow>
                           if is_live d5 source_data_item
                           then end_data_item_live d5 target_data_item else Inr d5)"

definition add_dependency :: "document_model \<Rightarrow> data_item \<Rightarrow> data_item \<Rightarrow> document_model" where
  "add_dependency d source_data_item target_data_item =
     (let d1 = d\<lparr>dependent_data_items := dict_setdefault (dependent_data_items d) source_data_item []\<rparr>;
          d2 = d1\<lparr>dependent_data_items := dict_set (dependent_data_items d1) source_data_item
                     (dict_get (dependent_data_items d1) source_data_item [] @ [target_data_item])\<rparr>;
          d3 = d2\<lparr>source_data_items := dict_setdefault (source_data_items d2) target_data_item []\<rparr>;
          d4 = d3\<lparr>source_data_items := dict_set (source_data_items d3) target_data_item
                     (dict_get (source_data_items d3) target_data_item [] @ [source_data_item])\<rparr>;
          d5 = (if in_transaction_state d4 source_data_item
                then begin_data_item_transaction d4 target_data_item else d4)
      in if is_live d5 source_data_item then begin_data_item_live d5 target_data_item else d5)"


declare begin_transactions.simps [simp del] end_transactions.simps [simp del]
  begin_lives.simps [simp del] end_lives.simps [simp del]

lemmas cascade_simps = begin_transactions.simps end_transactions.simps begin_lives.simps end_lives.simps

definition empty_document :: document_model where
  "empty_document =
     \<lparr>dependent_data_items = [], source_data_items = [], transactions = [], live_data_items = [],
      in_transaction_state = (\<lambda>_. False), is_live = (\<lambda>_. False), events = []\<rparr>"

definition transaction_count :: "document_model \<Rightarrow> data_item \<Rightarrow> int" where
  "transaction_count d x = dict_get (transactions d) x 0"

definition live_count :: "document_model \<Rightarrow> data_item \<Rightarrow> int" where
  "live_count d x = dict_get (live_data_items d) x 0"

fun outcome_state :: "error \<times> document_model + document_model \<Rightarrow> document_model" where
  "outcome_state (Inl (e, d)) = d"
| "outcome_state (Inr d) = d"

inductive reachable :: "document_model \<Rightarrow> bool" where
  initial: "reachable empty_document"
| begin_transaction: "reachable d \<Longrightarrow> reachable (begin_data_item_transaction d x)"
| end_transaction: "reachable d \<Longrightarrow> reachable (outcome_state (end_data_item_transaction d x))"
| begin_live: "reachable d \<Longrightarrow> reachable (begin_data_item_live d x)"
| end_live: "reachable d \<Longrightarrow> reachable (outcome_state (end_data_item_live d x))"
| add_edge: "reachable d \<Longrightarrow> reachable (add_dependency d s t)"
| remove_edge: "reachable d \<Longrightarrow> reachable (outcome_state (remove_dependency d s t))"

definition nonneg_counts :: "(data_item \<times> int) list \<Rightarrow> bool" where
  "nonneg_counts counts = list_all (\<lambda>p. 0 \<le> snd p) counts"

definition counts_inv :: "document_model \<Rightarrow> bool" where
  "counts_inv d \<longleftrightarrow> nonneg_counts (transactions d) \<and> nonneg_counts (live_data_items d)"

lemma nonneg_counts_get: "nonneg_counts counts \<Longrightarrow> 0 \<le> dict_get counts x 0"
  by (induction counts) (auto simp: nonneg_counts_def dict_get_def)

lemma nonneg_counts_set: "nonneg_counts counts \<Longrightarrow> 0 \<le> v \<Longrightarrow> nonneg_counts (dict_set counts x v)"
  by (induction counts) (auto simp: nonneg_counts_def dict_set_def)

lemma begin_transactions_inv: "counts_inv d \<Longrightarrow> counts_inv (begin_transactions todo d)"
proof (induction todo d rule: begin_transactions.induct)
  case (1 d)
  then show ?case by (simp add: cascade_simps)
next
  case (2 x todo d)
  let ?old = "dict_get (transactions d) x 0"
  let ?d1 = "d\<lparr>transactions := dict_set (transactions d) x (?old + 1)\<rparr>"
  from "2.prems" have "0 \<le> ?old" by (simp add: counts_inv_def nonneg_counts_get)
  with "2.prems" have d1: "counts_inv ?d1"
    by (simp add: counts_inv_def nonneg_counts_set)
  show ?case
  proof (cases "?old = 0")
    case True
    from d1 have "counts_inv (enter_transaction_state x ?d1)"
      by (simp add: counts_inv_def enter_transaction_state_def)
    with "2.IH"(1) [OF refl refl True] True show ?thesis by (simp add: cascade_simps Let_def)
  next
    case False
    with "2.IH"(2) [OF refl refl False] d1 show ?thesis by (simp add: cascade_simps Let_def)
  qed
qed

lemma end_transactions_inv: "counts_inv d \<Longrightarrow> counts_inv (outcome_state (end_transactions todo d))"
proof (induction todo d rule: end_transactions.induct)
  case (1 d)
  then show ?case by (simp add: cascade_simps)
next
  case (2 x todo d)
  then show ?case by (simp add: cascade_simps counts_inv_def exit_transaction_state_def)
next
  case (3 x todo d)
  let ?c = "dict_get (transactions d) x 0 - 1"
  let ?d1 = "d\<lparr>transactions := dict_set (transactions d) x ?c\<rparr>"
  show ?case
  proof (cases "0 \<le> ?c")
    case False
    with "3.prems" show ?thesis by (simp add: cascade_simps Let_def)
  next
    case nonneg: True
    with "3.prems" have d1: "counts_inv ?d1"
      by (simp add: counts_inv_def nonneg_counts_set)
    show ?thesis
    proof (cases "?c = 0")
      case True
      with "3.IH"(1) [OF refl _ refl True] nonneg d1 show ?thesis by (simp add: cascade_simps Let_def)
    next
      case False
      with "3.IH"(2) [OF refl _ refl False] nonneg d1 show ?thesis by (simp add: cascade_simps Let_def)
    qed
  qed
qed

lemma begin_lives_inv: "counts_inv d \<Longrightarrow> counts_inv (begin_lives todo d)"
proof (induction todo d rule: begin_lives.induct)
  case (1 d)
  then show ?case by (simp add: cascade_simps)
next
  case (2 x todo d)
  let ?old = "dict_get (live_data_items d) x 0"
  let ?d1 = "d\<lparr>live_data_items := dict_set (live_data_items d) x (?old + 1)\<rparr>"
  from "2.prems" have "0 \<le> ?old" by (simp add: counts_inv_def nonneg_counts_get)
  with "2.prems" have d1: "counts_inv ?d1"
    by (simp add: counts_inv_def nonneg_counts_set)
  show ?case
  proof (cases "?old = 0")
    case True
    from d1 have "counts_inv (enter_live_state x ?d1)"
      by (simp add: counts_inv_def enter_live_state_def)
    with "2.IH"(1) [OF refl refl True] True show ?thesis by (simp add: cascade_simps Let_def)
  next
    case False
    with "2.IH"(2) [OF refl refl False] d1 show ?thesis by (simp add: cascade_simps Let_def)
  qed
qed

lemma end_lives_inv: "counts_inv d \<Longrightarrow> counts_inv (outcome_state (end_lives todo d))"
proof (induction todo d rule: end_lives.induct)
  case (1 d)
  then show ?case by (simp add: cascade_simps)
next
  case (2 x todo d)
  let ?c = "dict_get (live_data_items d) x 0 - 1"
  let ?d1 = "d\<lparr>live_data_items := dict_set (live_data_items d) x ?c\<rparr>"
  show ?case
  proof (cases "0 \<le> ?c")
    case False
    with "2.prems" show ?thesis by (simp add: cascade_simps Let_def)
  next
    case nonneg: True
    with "2.prems" have d1: "counts_inv ?d1"
      by (simp add: counts_inv_def nonneg_counts_set)
    show ?thesis
    proof (cases "?c = 0")
      case True
      from d1 have "counts_inv (exit_live_state x ?d1)"
        by (simp add: counts_inv_def exit_live_state_def)
      with "2.IH"(1) [OF refl _ refl True] nonneg True show ?thesis by (simp add: cascade_simps Let_def)
    next
      case False
      with "2.IH"(2) [OF refl _ refl False] nonneg d1 show ?thesis by (simp add: cascade_simps Let_def)
    qed
  qed
qed

lemma counts_inv_frame:
  "transactions d' = transactions d \<Longrightarrow> live_data_items d' = live_data_items d \<Longrightarrow>
   counts_inv d' = counts_inv d"
  by (simp add: counts_inv_def)

lemma add_dependency_inv:
  assumes "counts_inv d"
  shows "counts_inv (add_dependency d s t)"
proof -
  define d4 where "d4 =
    (let d1 = d\<lparr>dependent_data_items := dict_setdefault (dependent_data_items d) s []\<rparr>;
         d2 = d1\<lparr>dependent_data_items := dict_set (dependent_data_items d1) s
                     (dict_get (dependent_data_items d1) s [] @ [t])\<rparr>;
         d3 = d2\<lparr>source_data_items := dict_setdefault (source_data_items d2) t []\<rparr>
     in d3\<lparr>source_data_items := dict_set (source_data_items d3) t
                     (dict_get (source_data_items d3) t [] @ [s])\<rparr>)"
  define d5 where "d5 = (if in_transaction_state d4 s then begin_data_item_transaction d4 t else d4)"
  have "counts_inv d4 = counts_inv d"
    by (rule counts_inv_frame) (simp_all add: d4_def Let_def)
  with assms have "counts_inv d4" by simp
  then have "counts_inv d5"
    by (simp add: d5_def begin_data_item_transaction_def begin_transactions_inv)
  then have "counts_inv (if is_live d5 s then begin_data_item_live d5 t else d5)"
    by (simp add: begin_data_item_live_def begin_lives_inv)
  moreover have "add_dependency d s t = (if is_live d5 s then begin_data_item_live d5 t else d5)"
    unfolding add_dependency_def d5_def d4_def Let_def by (rule refl)
  ultimately show ?thesis by simp
qed

lemma remove_dependency_inv:
  assumes "counts_inv d"
  shows "counts_inv (outcome_state (remove_dependency d s t))"
proof -
  define d1 where "d1 = d\<lparr>dependent_data_items := dict_setdefault (dependent_data_items d) s []\<rparr>"
  have i1: "counts_inv d1" using assms by (simp add: d1_def counts_inv_def)
  show ?thesis
  proof (cases "list_remove (dict_get (dependent_data_items d1) s []) t")
    case (Inl e)
    with i1 show ?thesis by (simp add: remove_dependency_def d1_def Let_def)
  next
    case (Inr targets)
    define d3 where "d3 = d1\<lparr>dependent_data_items := dict_set (dependent_data_items d1) s targets,
      source_data_items := dict_setdefault (source_data_items d1) t []\<rparr>"
    have i3: "counts_inv d3" using i1 by (simp add: d3_def counts_inv_def)
    show ?thesis
    proof (cases "list_remove (dict_get (source_data_items d3) t []) s")
      case (Inl e)
      with Inr i3 show ?thesis by (simp add: remove_dependency_def d1_def d3_def Let_def)
    next
      case sources: (Inr sources)
      define d4 where "d4 = d3\<lparr>source_data_items := dict_set (source_data_items d3) t sources\<rparr>"
      have i4: "counts_inv d4" using i3 by (simp add: d4_def counts_inv_def)
      define r where "r = (if in_transaction_state d4 s then end_data_item_transaction d4 t else Inr d4)"
      have ir: "counts_inv (outcome_state r)"
        using i4 by (simp add: r_def end_data_item_transaction_def end_transactions_inv)
      have eq: "remove_dependency d s t =
        (case r of Inl e \<Rightarrow> Inl e
         | Inr d5 \<Rightarrow> if is_live d5 s then end_data_item_live d5 t else Inr d5)"
        using Inr sources by (simp add: remove_dependency_def d1_def d3_def d4_def r_def Let_def)
      show ?thesis
      proof (cases r)
        case (Inl a)
        with ir eq show ?thesis by (cases a) simp
      next
        case (Inr d5)
        with ir eq show ?thesis by (simp add: end_data_item_live_def end_lives_inv)
      qed
    qed
  qed
qed

lemma reachable_counts_inv: "reachable d \<Longrightarrow> counts_inv d"
proof (induction rule: reachable.induct)
  case initial
  show ?case by (simp add: counts_inv_def nonneg_counts_def empty_document_def)
next
  case (begin_transaction d x)
  then show ?case by (simp add: begin_data_item_transaction_def begin_transactions_inv)
next
  case (end_transaction d x)
  then show ?case by (simp add: end_data_item_transaction_def end_transactions_inv)
next
  case (begin_live d x)
  then show ?case by (simp add: begin_data_item_live_def begin_lives_inv)
next
  case (end_live d x)
  then show ?case by (simp add: end_data_item_live_def end_lives_inv)
next
  case (add_edge d s t)
  then show ?case by (simp add: add_dependency_inv)
next
  case (remove_edge d s t)
  then show ?case by (simp add: remove_dependency_inv)
qed

lemma end_transaction_unmatched:
  "transaction_count d x \<le> 0 \<Longrightarrow> end_data_item_transaction d x = Inl (AssertionError, d)"
  by (simp add: end_data_item_transaction_def transaction_count_def cascade_simps Let_def)

lemma end_live_unmatched:
  "live_count d x \<le> 0 \<Longrightarrow> end_data_item_live d x = Inl (AssertionError, d)"
  by (simp add: end_data_item_live_def live_count_def cascade_simps Let_def)

theorem counts_never_negative:
  assumes "reachable d"
  shows "0 \<le> transaction_count d x \<and> 0 \<le> live_count d x \<and>
    (transaction_count d x = 0 \<longrightarrow> end_data_item_transaction d x = Inl (AssertionError, d)) \<and>
    (live_count d x = 0 \<longrightarrow> end_data_item_live d x = Inl (AssertionError, d))"
proof -
  from assms have "counts_inv d" by (rule reachable_counts_inv)
  then have "0 \<le> transaction_count d x" "0 \<le> live_count d x"
    by (simp_all add: counts_inv_def transaction_count_def live_count_def nonneg_counts_get)
  then show ?thesis
    by (simp add: end_transaction_unmatched end_live_unmatched)
qed

theorem counts_never_negative_witness:
  "reachable (begin_data_item_transaction empty_document 1) \<and>
   0 \<le> transaction_count (begin_data_item_transaction empty_document 1) 2 \<and>
   0 \<le> live_count (begin_data_item_transaction empty_document 1) 2 \<and>
   transaction_count (begin_data_item_transaction empty_document 1) 2 = 0 \<and>
   live_count (begin_data_item_transaction empty_document 1) 2 = 0 \<and>
   transaction_count (begin_data_item_transaction empty_document 1) 1 = 1 \<and>
   end_data_item_transaction (begin_data_item_transaction empty_document 1) 2 =
     Inl (AssertionError, begin_data_item_transaction empty_document 1) \<and>
   end_data_item_live (begin_data_item_transaction empty_document 1) 2 =
     Inl (AssertionError, begin_data_item_transaction empty_document 1)"
proof -
  have r: "reachable (begin_data_item_transaction empty_document 1)"
    by (rule reachable.begin_transaction [OF reachable.initial])
  have c: "transaction_count (begin_data_item_transaction empty_document 1) 2 = 0"
      "live_count (begin_data_item_transaction empty_document 1) 2 = 0"
      "transaction_count (begin_data_item_transaction empty_document 1) 1 = 1"
    by (simp_all add: begin_data_item_transaction_def empty_document_def transaction_count_def
        live_count_def dict_get_def dict_set_def get_dependent_data_items_def
        enter_transaction_state_def cascade_simps Let_def)
  from counts_never_negative [OF r, of 2] r c show ?thesis by simp
qed

lemma transaction_count_simps [simp]:
  "transaction_count (d\<lparr>transactions := c\<rparr>) x = dict_get c x 0"
  "transaction_count (enter_transaction_state y d) x = transaction_count d x"
  "transaction_count (exit_transaction_state y d) x = transaction_count d x"
  by (simp_all add: transaction_count_def enter_transaction_state_def exit_transaction_state_def)

lemma get_dependent_data_items_simps [simp]:
  "get_dependent_data_items (d\<lparr>transactions := c\<rparr>) x = get_dependent_data_items d x"
  "get_dependent_data_items (enter_transaction_state y d) x = get_dependent_data_items d x"
  "get_dependent_data_items (exit_transaction_state y d) x = get_dependent_data_items d x"
  by (simp_all add: get_dependent_data_items_def enter_transaction_state_def exit_transaction_state_def)

lemma begin_transaction_nonzero:
  "transaction_count d x \<noteq> 0 \<Longrightarrow>
   begin_data_item_transaction d x = d\<lparr>transactions := dict_set (transactions d) x (transaction_count d x + 1)\<rparr>"
  by (simp add: begin_data_item_transaction_def transaction_count_def cascade_simps Let_def)

lemma begin_transactions_events:
  "\<exists>es. events (begin_transactions todo d) = events d @ es"
proof (induction todo d rule: begin_transactions.induct)
  case (1 d)
  then show ?case by (simp add: cascade_simps)
next
  case (2 x todo d)
  show ?case
  proof (cases "dict_get (transactions d) x 0 = 0")
    case True
    with "2.IH"(1) [OF refl refl True] show ?thesis
      by (auto simp add: cascade_simps Let_def enter_transaction_state_def)
  next
    case False
    with "2.IH"(2) [OF refl refl False] show ?thesis
      by (auto simp add: cascade_simps Let_def)
  qed
qed

lemma begin_transaction_zero:
  assumes "transaction_count d x = 0"
  shows "\<exists>es. events (begin_data_item_transaction d x) = events d @ EnterTransaction x # es"
proof -
  let ?d1 = "enter_transaction_state x (d\<lparr>transactions := dict_set (transactions d) x 1\<rparr>)"
  from assms have "begin_data_item_transaction d x = begin_transactions (get_dependent_data_items d x) ?d1"
    by (simp add: begin_data_item_transaction_def transaction_count_def cascade_simps Let_def)
  moreover obtain es where "events (begin_transactions (get_dependent_data_items d x) ?d1) = events ?d1 @ es"
    using begin_transactions_events by blast
  ultimately show ?thesis by (simp add: enter_transaction_state_def)
qed

lemma end_transaction_above_one:
  "1 < transaction_count d x \<Longrightarrow>
   end_data_item_transaction d x = Inr (d\<lparr>transactions := dict_set (transactions d) x (transaction_count d x - 1)\<rparr>)"
  by (simp add: end_data_item_transaction_def transaction_count_def cascade_simps Let_def)

lemma end_transactions_append:
  "end_transactions (ts @ rest) d =
     (case end_transactions ts d of Inl e \<Rightarrow> Inl e | Inr d' \<Rightarrow> end_transactions rest d')"
proof (induction ts d rule: end_transactions.induct)
  case (1 d)
  then show ?case by (simp add: cascade_simps)
next
  case (2 x todo d)
  then show ?case by (simp add: cascade_simps)
next
  case (3 x todo d)
  let ?c = "dict_get (transactions d) x 0 - 1"
  show ?case
  proof (cases "0 \<le> ?c")
    case False
    then show ?thesis by (simp add: cascade_simps Let_def)
  next
    case nonneg: True
    show ?thesis
    proof (cases "?c = 0")
      case True
      with "3.IH"(1) [OF refl _ refl True] nonneg show ?thesis by (simp add: cascade_simps Let_def)
    next
      case False
      with "3.IH"(2) [OF refl _ refl False] nonneg show ?thesis by (simp add: cascade_simps Let_def)
    qed
  qed
qed

lemma end_transactions_events:
  "end_transactions ts d = Inr d' \<Longrightarrow> \<exists>es. events d' = events d @ es"
proof (induction ts d rule: end_transactions.induct)
  case (1 d)
  then show ?case by (simp add: cascade_simps)
next
  case (2 x todo d)
  then show ?case by (auto simp add: cascade_simps exit_transaction_state_def)
next
  case (3 x todo d)
  let ?c = "dict_get (transactions d) x 0 - 1"
  show ?case
  proof (cases "0 \<le> ?c")
    case False
    with "3.prems" show ?thesis by (simp add: cascade_simps Let_def)
  next
    case nonneg: True
    show ?thesis
    proof (cases "?c = 0")
      case True
      with "3.IH"(1) [OF refl _ refl True] nonneg "3.prems" show ?thesis
        by (simp add: cascade_simps Let_def)
    next
      case False
      with "3.IH"(2) [OF refl _ refl False] nonneg "3.prems" show ?thesis
        by (simp add: cascade_simps Let_def)
    qed
  qed
qed

lemma end_transaction_one:
  assumes "transaction_count d x = 1" and "end_data_item_transaction d x = Inr d'"
  shows "\<exists>es. events d' = events d @ es @ [ExitTransaction x] \<and> \<not> in_transaction_state d' x"
proof -
  let ?d1 = "d\<lparr>transactions := dict_set (transactions d) x 0\<rparr>"
  from assms(1) have "end_data_item_transaction d x =
      end_transactions (map End (get_dependent_data_items d x) @ [Exit x]) ?d1"
    by (simp add: end_data_item_transaction_def transaction_count_def cascade_simps Let_def)
  with assms(2) obtain d2 where d2: "end_transactions (map End (get_dependent_data_items d x)) ?d1 = Inr d2"
    and d': "d' = exit_transaction_state x d2"
    by (auto simp: end_transactions_append cascade_simps split: sum.splits)
  from end_transactions_events [OF d2] obtain es where "events d2 = events d @ es" by auto
  with d' show ?thesis by (simp add: exit_transaction_state_def)
qed


lemma chain_begin:
  assumes deps: "get_dependent_data_items d a = [b]" "get_dependent_data_items d b = [c]"
      "get_dependent_data_items d c = []"
    and ne: "a \<noteq> b" "b \<noteq> c" "a \<noteq> c"
    and zero: "transaction_count d a = 0" "transaction_count d b = 0" "transaction_count d c = 0"
  shows "begin_data_item_transaction d a =
     d\<lparr>transactions := dict_set (dict_set (dict_set (transactions d) a 1) b 1) c 1,
       in_transaction_state := (in_transaction_state d)(a := True, b := True, c := True),
       events := events d @ [EnterTransaction a, EnterTransaction b, EnterTransaction c]\<rparr>"
  using assms
  by (simp add: begin_data_item_transaction_def cascade_simps Let_def transaction_count_def
      get_dependent_data_items_def dict_get_set enter_transaction_state_def)

lemma chain_end:
  assumes deps: "get_dependent_data_items d a = [b]" "get_dependent_data_items d b = [c]"
      "get_dependent_data_items d c = []"
    and ne: "a \<noteq> b" "b \<noteq> c" "a \<noteq> c"
    and one: "transaction_count d a = 1" "transaction_count d b = 1" "transaction_count d c = 1"
  shows "end_data_item_transaction d a =
     Inr (d\<lparr>transactions := dict_set (dict_set (dict_set (transactions d) a 0) b 0) c 0,
       in_transaction_state := (in_transaction_state d)(c := False, b := False, a := False),
       events := events d @ [ExitTransaction c, ExitTransaction b, ExitTransaction a]\<rparr>)"
  using assms
  by (simp add: end_data_item_transaction_def cascade_simps Let_def transaction_count_def
      get_dependent_data_items_def dict_get_set exit_transaction_state_def)


lemma begin_transactions_mono:
  "transaction_count d y \<le> transaction_count (begin_transactions todo d) y"
proof (induction todo d rule: begin_transactions.induct)
  case (1 d)
  then show ?case by (simp add: cascade_simps)
next
  case (2 x todo d)
  show ?case
  proof (cases "dict_get (transactions d) x 0 = 0")
    case True
    have "transaction_count d y \<le> transaction_count (enter_transaction_state x (d\<lparr>transactions := dict_set (transactions d) x 1\<rparr>)) y"
      using True by (simp add: dict_get_set transaction_count_def enter_transaction_state_def)
    with "2.IH"(1) [OF refl refl True] True show ?thesis
      by (simp add: cascade_simps Let_def)
  next
    case False
    have "transaction_count d y \<le> transaction_count (d\<lparr>transactions := dict_set (transactions d) x (dict_get (transactions d) x 0 + 1)\<rparr>) y"
      by (simp add: dict_get_set transaction_count_def)
    with "2.IH"(2) [OF refl refl False] False show ?thesis
      by (simp add: cascade_simps Let_def)
  qed
qed

lemma begin_transactions_entered:
  "\<exists>es. events (begin_transactions todo d) = events d @ es \<and>
     (\<forall>e \<in> set es. \<exists>y. e = EnterTransaction y \<and> transaction_count d y \<le> 0 \<and>
        1 \<le> transaction_count (begin_transactions todo d) y)"
proof (induction todo d rule: begin_transactions.induct)
  case (1 d)
  then show ?case by (simp add: cascade_simps)
next
  case (2 x todo d)
  show ?case
  proof (cases "dict_get (transactions d) x 0 = 0")
    case True
    let ?d1 = "enter_transaction_state x (d\<lparr>transactions := dict_set (transactions d) x 1\<rparr>)"
    let ?d' = "begin_transactions (get_dependent_data_items d x @ todo) ?d1"
    have unfold: "begin_transactions (x # todo) d = ?d'"
      using True by (simp add: cascade_simps Let_def)
    from "2.IH"(1) [OF refl refl True] True obtain es where
      es: "events ?d' = events ?d1 @ es"
      and all: "\<forall>e \<in> set es. \<exists>y. e = EnterTransaction y \<and> transaction_count ?d1 y \<le> 0 \<and>
        1 \<le> transaction_count ?d' y"
      by auto
    have "transaction_count ?d1 x \<le> transaction_count ?d' x"
      by (rule begin_transactions_mono)
    then have x: "1 \<le> transaction_count ?d' x" by (simp add: dict_get_set)
    have "\<forall>e \<in> set (EnterTransaction x # es). \<exists>y. e = EnterTransaction y \<and> transaction_count d y \<le> 0 \<and>
        1 \<le> transaction_count ?d' y"
    proof
      fix e assume "e \<in> set (EnterTransaction x # es)"
      then consider "e = EnterTransaction x" | "e \<in> set es" by auto
      then show "\<exists>y. e = EnterTransaction y \<and> transaction_count d y \<le> 0 \<and> 1 \<le> transaction_count ?d' y"
      proof cases
        case 1
        with x True show ?thesis by (simp add: transaction_count_def)
      next
        case 2
        with all obtain y where y: "e = EnterTransaction y" "transaction_count ?d1 y \<le> 0"
          "1 \<le> transaction_count ?d' y" by blast
        from y(2) have "y \<noteq> x" by (auto simp: dict_get_set)
        with y(2) have "transaction_count d y \<le> 0"
          by (simp add: dict_get_set transaction_count_def enter_transaction_state_def)
        with y show ?thesis by simp
      qed
    qed
    moreover have "events ?d' = events d @ EnterTransaction x # es"
      using es by (simp add: enter_transaction_state_def)
    ultimately show ?thesis unfolding unfold by blast
  next
    case False
    let ?d1 = "d\<lparr>transactions := dict_set (transactions d) x (dict_get (transactions d) x 0 + 1)\<rparr>"
    let ?d' = "begin_transactions todo ?d1"
    have unfold: "begin_transactions (x # todo) d = ?d'"
      using False by (simp add: cascade_simps Let_def)
    from "2.IH"(2) [OF refl refl False] obtain es where
      es: "events ?d' = events ?d1 @ es"
      and all: "\<forall>e \<in> set es. \<exists>y. e = EnterTransaction y \<and> transaction_count ?d1 y \<le> 0 \<and>
        1 \<le> transaction_count ?d' y"
      by auto
    have "\<forall>e \<in> set es. \<exists>y. e = EnterTransaction y \<and> transaction_count d y \<le> 0 \<and>
        1 \<le> transaction_count ?d' y"
    proof
      fix e assume "e \<in> set es"
      with all obtain y where y: "e = EnterTransaction y" "transaction_count ?d1 y \<le> 0"
          "1 \<le> transaction_count ?d' y" by blast
      from y(2) have "transaction_count d y \<le> 0"
        by (cases "y = x") (simp_all add: dict_get_set transaction_count_def)
      with y show "\<exists>y. e = EnterTransaction y \<and> transaction_count d y \<le> 0 \<and> 1 \<le> transaction_count ?d' y"
        by simp
    qed
    moreover have "events ?d' = events d @ es" using es by simp
    ultimately show ?thesis unfolding unfold by blast
  qed
qed


lemma end_transactions_zero_stays:
  "end_transactions ts d = Inr d' \<Longrightarrow> transaction_count d y = 0 \<Longrightarrow> transaction_count d' y = 0"
proof (induction ts d rule: end_transactions.induct)
  case (1 d)
  then show ?case by (simp add: cascade_simps)
next
  case (2 x todo d)
  then show ?case by (simp add: cascade_simps)
next
  case (3 x todo d)
  let ?c = "dict_get (transactions d) x 0 - 1"
  let ?d1 = "d\<lparr>transactions := dict_set (transactions d) x ?c\<rparr>"
  show ?case
  proof (cases "0 \<le> ?c")
    case False
    with "3.prems" show ?thesis by (simp add: cascade_simps Let_def)
  next
    case nonneg: True
    with "3.prems"(2) have "y \<noteq> x" by (auto simp: transaction_count_def)
    with "3.prems"(2) have y: "transaction_count ?d1 y = 0"
      by (simp add: dict_get_set transaction_count_def)
    show ?thesis
    proof (cases "?c = 0")
      case True
      with "3.prems"(1) nonneg have "end_transactions (map End (get_dependent_data_items ?d1 x) @ Exit x # todo) ?d1 = Inr d'"
        by (simp add: cascade_simps Let_def)
      from "3.IH"(1) [OF refl _ refl True this y] nonneg show ?thesis by simp
    next
      case False
      with "3.prems"(1) nonneg have "end_transactions todo ?d1 = Inr d'"
        by (simp add: cascade_simps Let_def)
      from "3.IH"(2) [OF refl _ refl False this y] nonneg show ?thesis by simp
    qed
  qed
qed

lemma end_transactions_exited:
  "end_transactions ts d = Inr d' \<Longrightarrow>
   \<exists>es. events d' = events d @ es \<and>
     (\<forall>e \<in> set es. \<exists>y. e = ExitTransaction y \<and>
        (Exit y \<in> set ts \<or> (1 \<le> transaction_count d y \<and> transaction_count d' y = 0)))"
proof (induction ts d rule: end_transactions.induct)
  case (1 d)
  then show ?case by (simp add: cascade_simps)
next
  case (2 x todo d)
  from "2.prems" have run: "end_transactions todo (exit_transaction_state x d) = Inr d'"
    by (simp add: cascade_simps)
  from "2.IH" [OF run] obtain es where es: "events d' = events (exit_transaction_state x d) @ es"
    and all: "\<forall>e \<in> set es. \<exists>y. e = ExitTransaction y \<and>
        (Exit y \<in> set todo \<or> (1 \<le> transaction_count (exit_transaction_state x d) y \<and> transaction_count d' y = 0))"
    by blast
  from es have "events d' = events d @ ExitTransaction x # es"
    by (simp add: exit_transaction_state_def)
  moreover from all have "\<forall>e \<in> set (ExitTransaction x # es). \<exists>y. e = ExitTransaction y \<and>
        (Exit y \<in> set (Exit x # todo) \<or> (1 \<le> transaction_count d y \<and> transaction_count d' y = 0))"
    by auto
  ultimately show ?case by blast
next
  case (3 x todo d)
  let ?c = "dict_get (transactions d) x 0 - 1"
  let ?d1 = "d\<lparr>transactions := dict_set (transactions d) x ?c\<rparr>"
  show ?case
  proof (cases "0 \<le> ?c")
    case False
    with "3.prems" show ?thesis by (simp add: cascade_simps Let_def)
  next
    case nonneg: True
    show ?thesis
    proof (cases "?c = 0")
      case True
      with "3.prems"(1) nonneg have run: "end_transactions (map End (get_dependent_data_items ?d1 x) @ Exit x # todo) ?d1 = Inr d'"
        by (simp add: cascade_simps Let_def)
      from "3.IH"(1) [OF refl _ refl True run] nonneg obtain es where es: "events d' = events ?d1 @ es"
        and all: "\<forall>e \<in> set es. \<exists>y. e = ExitTransaction y \<and>
          (Exit y \<in> set (map End (get_dependent_data_items ?d1 x) @ Exit x # todo) \<or>
           (1 \<le> transaction_count ?d1 y \<and> transaction_count d' y = 0))"
        by auto
      have x0: "transaction_count ?d1 x = 0" using True by (simp add: dict_get_set)
      have x': "transaction_count d' x = 0"
        by (rule end_transactions_zero_stays [OF run x0])
      have x1: "1 \<le> transaction_count d x" using True by (simp add: transaction_count_def)
      have "\<forall>e \<in> set es. \<exists>y. e = ExitTransaction y \<and>
          (Exit y \<in> set (End x # todo) \<or> (1 \<le> transaction_count d y \<and> transaction_count d' y = 0))"
      proof
        fix e assume "e \<in> set es"
        with all obtain y where y: "e = ExitTransaction y"
          and alt: "Exit y \<in> set (map End (get_dependent_data_items ?d1 x) @ Exit x # todo) \<or>
           (1 \<le> transaction_count ?d1 y \<and> transaction_count d' y = 0)" by blast
        from alt consider "y = x" | "Exit y \<in> set todo"
          | "y \<noteq> x" "1 \<le> transaction_count ?d1 y" "transaction_count d' y = 0"
          by auto
        then have "Exit y \<in> set (End x # todo) \<or> (1 \<le> transaction_count d y \<and> transaction_count d' y = 0)"
        proof cases
          case 1
          with x' x1 show ?thesis by simp
        next
          case 2
          then show ?thesis by simp
        next
          case 3
          then show ?thesis by (simp add: dict_get_set transaction_count_def)
        qed
        with y show "\<exists>y. e = ExitTransaction y \<and>
          (Exit y \<in> set (End x # todo) \<or> (1 \<le> transaction_count d y \<and> transaction_count d' y = 0))"
          by blast
      qed
      moreover have "events d' = events d @ es" using es by simp
      ultimately show ?thesis by blast
    next
      case False
      with "3.prems"(1) nonneg have run: "end_transactions todo ?d1 = Inr d'"
        by (simp add: cascade_simps Let_def)
      from "3.IH"(2) [OF refl _ refl False run] nonneg obtain es where es: "events d' = events ?d1 @ es"
        and all: "\<forall>e \<in> set es. \<exists>y. e = ExitTransaction y \<and>
          (Exit y \<in> set todo \<or> (1 \<le> transaction_count ?d1 y \<and> transaction_count d' y = 0))"
        by auto
      have "\<forall>e \<in> set es. \<exists>y. e = ExitTransaction y \<and>
          (Exit y \<in> set (End x # todo) \<or> (1 \<le> transaction_count d y \<and> transaction_count d' y = 0))"
      proof
        fix e assume "e \<in> set es"
        with all obtain y where y: "e = ExitTransaction y"
          and alt: "Exit y \<in> set todo \<or> (1 \<le> transaction_count ?d1 y \<and> transaction_count d' y = 0)"
          by blast
        from alt nonneg have "Exit y \<in> set (End x # todo) \<or> (1 \<le> transaction_count d y \<and> transaction_count d' y = 0)"
          by (cases "y = x") (auto simp add: dict_get_set transaction_count_def)
        with y show "\<exists>y. e = ExitTransaction y \<and>
          (Exit y \<in> set (End x # todo) \<or> (1 \<le> transaction_count d y \<and> transaction_count d' y = 0))"
          by blast
      qed
      moreover have "events d' = events d @ es" using es by simp
      ultimately show ?thesis by blast
    qed
  qed
qed


definition new_events :: "document_model \<Rightarrow> document_model \<Rightarrow> event list" where
  "new_events d d' = drop (length (events d)) (events d')"

theorem transaction_cascade:
  assumes deps: "get_dependent_data_items d a = [b]" "get_dependent_data_items d b = [c]"
      "get_dependent_data_items d c = []"
    and ne: "a \<noteq> b" "b \<noteq> c" "a \<noteq> c"
    and zero: "transaction_count d a = 0" "transaction_count d b = 0" "transaction_count d c = 0"
    and m: "reachable m"
  shows "(let d1 = begin_data_item_transaction d a in
      transaction_count d1 a = 1 \<and> transaction_count d1 b = 1 \<and> transaction_count d1 c = 1 \<and>
      in_transaction_state d1 a \<and> in_transaction_state d1 b \<and> in_transaction_state d1 c \<and>
      new_events d d1 = [EnterTransaction a, EnterTransaction b, EnterTransaction c] \<and>
      (\<exists>d2. end_data_item_transaction d1 a = Inr d2 \<and>
         transaction_count d2 a = 0 \<and> transaction_count d2 b = 0 \<and> transaction_count d2 c = 0 \<and>
         \<not> in_transaction_state d2 a \<and> \<not> in_transaction_state d2 b \<and> \<not> in_transaction_state d2 c \<and>
         new_events d1 d2 = [ExitTransaction c, ExitTransaction b, ExitTransaction a])) \<and>
    (\<forall>e \<in> set (new_events m (begin_data_item_transaction m x)).
       \<exists>y. e = EnterTransaction y \<and> transaction_count m y = 0 \<and>
           1 \<le> transaction_count (begin_data_item_transaction m x) y) \<and>
    (\<forall>m'. end_data_item_transaction m x = Inr m' \<longrightarrow>
       (\<forall>e \<in> set (new_events m m').
          \<exists>y. e = ExitTransaction y \<and> 1 \<le> transaction_count m y \<and> transaction_count m' y = 0) \<and>
       (transaction_count m x = 1 \<longrightarrow> (\<exists>es. new_events m m' = es @ [ExitTransaction x])))"
proof -
  let ?d1 = "begin_data_item_transaction d a"
  note d1 = chain_begin [OF deps ne zero]
  have deps1: "get_dependent_data_items ?d1 a = [b]" "get_dependent_data_items ?d1 b = [c]"
      "get_dependent_data_items ?d1 c = []"
    using deps by (simp_all add: d1 get_dependent_data_items_def)
  have one: "transaction_count ?d1 a = 1" "transaction_count ?d1 b = 1" "transaction_count ?d1 c = 1"
    using ne by (simp_all add: d1 transaction_count_def dict_get_set)
  note d2 = chain_end [OF deps1 ne one]
  have chain: "let d1 = begin_data_item_transaction d a in
      transaction_count d1 a = 1 \<and> transaction_count d1 b = 1 \<and> transaction_count d1 c = 1 \<and>
      in_transaction_state d1 a \<and> in_transaction_state d1 b \<and> in_transaction_state d1 c \<and>
      new_events d d1 = [EnterTransaction a, EnterTransaction b, EnterTransaction c] \<and>
      (\<exists>d2. end_data_item_transaction d1 a = Inr d2 \<and>
         transaction_count d2 a = 0 \<and> transaction_count d2 b = 0 \<and> transaction_count d2 c = 0 \<and>
         \<not> in_transaction_state d2 a \<and> \<not> in_transaction_state d2 b \<and> \<not> in_transaction_state d2 c \<and>
         new_events d1 d2 = [ExitTransaction c, ExitTransaction b, ExitTransaction a])"
    unfolding Let_def
  proof (intro conjI)
    show "\<exists>d2. end_data_item_transaction ?d1 a = Inr d2 \<and>
         transaction_count d2 a = 0 \<and> transaction_count d2 b = 0 \<and> transaction_count d2 c = 0 \<and>
         \<not> in_transaction_state d2 a \<and> \<not> in_transaction_state d2 b \<and> \<not> in_transaction_state d2 c \<and>
         new_events ?d1 d2 = [ExitTransaction c, ExitTransaction b, ExitTransaction a]"
      using ne by (simp add: d2 transaction_count_def dict_get_set new_events_def)
  qed (use one ne in \<open>simp_all add: d1 new_events_def\<close>)
  from m have inv: "counts_inv m" by (rule reachable_counts_inv)
  have enter: "\<forall>e \<in> set (new_events m (begin_data_item_transaction m x)).
       \<exists>y. e = EnterTransaction y \<and> transaction_count m y = 0 \<and>
           1 \<le> transaction_count (begin_data_item_transaction m x) y"
  proof
    fix e assume e: "e \<in> set (new_events m (begin_data_item_transaction m x))"
    from begin_transactions_entered [of "[x]" m] obtain es where
      es: "events (begin_transactions [x] m) = events m @ es"
      and all: "\<forall>e \<in> set es. \<exists>y. e = EnterTransaction y \<and> transaction_count m y \<le> 0 \<and>
        1 \<le> transaction_count (begin_transactions [x] m) y" by blast
    from e es have "e \<in> set es" by (simp add: new_events_def begin_data_item_transaction_def)
    with all obtain y where y: "e = EnterTransaction y" "transaction_count m y \<le> 0"
      "1 \<le> transaction_count (begin_transactions [x] m) y" by blast
    from inv have "0 \<le> transaction_count m y"
      by (simp add: counts_inv_def transaction_count_def nonneg_counts_get)
    with y show "\<exists>y. e = EnterTransaction y \<and> transaction_count m y = 0 \<and>
           1 \<le> transaction_count (begin_data_item_transaction m x) y"
      by (simp add: begin_data_item_transaction_def)
  qed
  have exit: "\<forall>m'. end_data_item_transaction m x = Inr m' \<longrightarrow>
       (\<forall>e \<in> set (new_events m m').
          \<exists>y. e = ExitTransaction y \<and> 1 \<le> transaction_count m y \<and> transaction_count m' y = 0) \<and>
       (transaction_count m x = 1 \<longrightarrow> (\<exists>es. new_events m m' = es @ [ExitTransaction x]))"
  proof (intro allI impI conjI)
    fix m' assume run: "end_data_item_transaction m x = Inr m'"
    then have "end_transactions [End x] m = Inr m'" by (simp add: end_data_item_transaction_def)
    from end_transactions_exited [OF this] obtain es where
      es: "events m' = events m @ es"
      and all: "\<forall>e \<in> set es. \<exists>y. e = ExitTransaction y \<and>
        (Exit y \<in> set [End x] \<or> (1 \<le> transaction_count m y \<and> transaction_count m' y = 0))" by blast
    from es all show "\<forall>e \<in> set (new_events m m').
          \<exists>y. e = ExitTransaction y \<and> 1 \<le> transaction_count m y \<and> transaction_count m' y = 0"
      by (simp add: new_events_def)
    assume "transaction_count m x = 1"
    from end_transaction_one [OF this run] show "\<exists>es. new_events m m' = es @ [ExitTransaction x]"
      by (auto simp: new_events_def)
  qed
  from chain enter exit show ?thesis by blast
qed

definition chain_document :: document_model where
  "chain_document = add_dependency (add_dependency empty_document 1 2) 2 3"

lemma chain_document_eq:
  "chain_document = empty_document\<lparr>dependent_data_items := [(1, [2]), (2, [3])],
     source_data_items := [(2, [1]), (3, [2])]\<rparr>"
  by (simp add: chain_document_def add_dependency_def empty_document_def Let_def
      dict_setdefault_def dict_set_def dict_get_def)


theorem transaction_cascade_witness:
  "get_dependent_data_items chain_document 1 = [2] \<and>
   get_dependent_data_items chain_document 2 = [3] \<and>
   get_dependent_data_items chain_document 3 = [] \<and>
   transaction_count chain_document 1 = 0 \<and> transaction_count chain_document 2 = 0 \<and>
   transaction_count chain_document 3 = 0 \<and>
   reachable (begin_data_item_transaction chain_document 1) \<and>
   new_events chain_document (begin_data_item_transaction chain_document 1) =
     [EnterTransaction 1, EnterTransaction 2, EnterTransaction 3] \<and>
   transaction_count (begin_data_item_transaction chain_document 1) 1 = 1 \<and>
   (\<exists>d2. end_data_item_transaction (begin_data_item_transaction chain_document 1) 1 = Inr d2 \<and>
      new_events (begin_data_item_transaction chain_document 1) d2 =
        [ExitTransaction 3, ExitTransaction 2, ExitTransaction 1] \<and>
      (\<forall>e \<in> set (new_events (begin_data_item_transaction chain_document 1) d2).
          \<exists>y. e = ExitTransaction y \<and>
            1 \<le> transaction_count (begin_data_item_transaction chain_document 1) y \<and>
            transaction_count d2 y = 0) \<and>
      \<not> in_transaction_state d2 1 \<and> \<not> in_transaction_state d2 2 \<and> \<not> in_transaction_state d2 3)"
proof -
  have deps: "get_dependent_data_items chain_document 1 = [2]"
      "get_dependent_data_items chain_document 2 = [3]"
      "get_dependent_data_items chain_document 3 = []"
    by (simp_all add: chain_document_eq get_dependent_data_items_def dict_get_def)
  have ne: "(1::nat) \<noteq> 2" "(2::nat) \<noteq> 3" "(1::nat) \<noteq> 3" by simp_all
  have zero: "transaction_count chain_document 1 = 0" "transaction_count chain_document 2 = 0"
      "transaction_count chain_document 3 = 0"
    by (simp_all add: chain_document_eq transaction_count_def dict_get_def empty_document_def)
  have "reachable chain_document"
    unfolding chain_document_def by (intro reachable.add_edge reachable.initial)
  then have m: "reachable (begin_data_item_transaction chain_document 1)"
    by (rule reachable.begin_transaction)
  from transaction_cascade [OF deps ne zero m, of 1] deps zero m show ?thesis
    unfolding Let_def by (elim conjE exE) auto
qed

lemma live_count_simps [simp]:
  "live_count (d\<lparr>live_data_items := c\<rparr>) x = dict_get c x 0"
  "live_count (enter_live_state y d) x = live_count d x"
  "live_count (exit_live_state y d) x = live_count d x"
  by (simp_all add: live_count_def enter_live_state_def exit_live_state_def)

lemma get_dependent_data_items_live_simps [simp]:
  "get_dependent_data_items (d\<lparr>live_data_items := c\<rparr>) x = get_dependent_data_items d x"
  "get_dependent_data_items (enter_live_state y d) x = get_dependent_data_items d x"
  "get_dependent_data_items (exit_live_state y d) x = get_dependent_data_items d x"
  by (simp_all add: get_dependent_data_items_def enter_live_state_def exit_live_state_def)

definition live_frame :: "document_model \<Rightarrow> document_model \<Rightarrow> bool" where
  "live_frame d d' \<longleftrightarrow> live_data_items d' = live_data_items d \<and> is_live d' = is_live d \<and>
     dependent_data_items d' = dependent_data_items d \<and> source_data_items d' = source_data_items d"

definition transaction_frame :: "document_model \<Rightarrow> document_model \<Rightarrow> bool" where
  "transaction_frame d d' \<longleftrightarrow> transactions d' = transactions d \<and>
     in_transaction_state d' = in_transaction_state d \<and>
     dependent_data_items d' = dependent_data_items d \<and> source_data_items d' = source_data_items d"

lemma begin_transactions_frame: "live_frame d (begin_transactions todo d)"
proof (induction todo d rule: begin_transactions.induct)
  case (1 d)
  then show ?case by (simp add: cascade_simps live_frame_def)
next
  case (2 x todo d)
  show ?case
  proof (cases "dict_get (transactions d) x 0 = 0")
    case True
    with "2.IH"(1) [OF refl refl True] show ?thesis
      by (simp add: cascade_simps Let_def live_frame_def enter_transaction_state_def)
  next
    case False
    with "2.IH"(2) [OF refl refl False] show ?thesis
      by (simp add: cascade_simps Let_def live_frame_def)
  qed
qed

lemma end_transactions_frame: "live_frame d (outcome_state (end_transactions ts d))"
proof (induction ts d rule: end_transactions.induct)
  case (1 d)
  then show ?case by (simp add: cascade_simps live_frame_def)
next
  case (2 x todo d)
  then show ?case by (simp add: cascade_simps live_frame_def exit_transaction_state_def)
next
  case (3 x todo d)
  let ?c = "dict_get (transactions d) x 0 - 1"
  show ?case
  proof (cases "0 \<le> ?c")
    case False
    then show ?thesis by (simp add: cascade_simps Let_def live_frame_def)
  next
    case nonneg: True
    show ?thesis
    proof (cases "?c = 0")
      case True
      with "3.IH"(1) [OF refl _ refl True] nonneg show ?thesis
        by (simp add: cascade_simps Let_def live_frame_def)
    next
      case False
      with "3.IH"(2) [OF refl _ refl False] nonneg show ?thesis
        by (simp add: cascade_simps Let_def live_frame_def)
    qed
  qed
qed

lemma begin_lives_frame: "transaction_frame d (begin_lives todo d)"
proof (induction todo d rule: begin_lives.induct)
  case (1 d)
  then show ?case by (simp add: cascade_simps transaction_frame_def)
next
  case (2 x todo d)
  show ?case
  proof (cases "dict_get (live_data_items d) x 0 = 0")
    case True
    with "2.IH"(1) [OF refl refl True] show ?thesis
      by (simp add: cascade_simps Let_def transaction_frame_def enter_live_state_def)
  next
    case False
    with "2.IH"(2) [OF refl refl False] show ?thesis
      by (simp add: cascade_simps Let_def transaction_frame_def)
  qed
qed

lemma end_lives_frame: "transaction_frame d (outcome_state (end_lives ts d))"
proof (induction ts d rule: end_lives.induct)
  case (1 d)
  then show ?case by (simp add: cascade_simps transaction_frame_def)
next
  case (2 x todo d)
  let ?c = "dict_get (live_data_items d) x 0 - 1"
  show ?case
  proof (cases "0 \<le> ?c")
    case False
    then show ?thesis by (simp add: cascade_simps Let_def transaction_frame_def)
  next
    case nonneg: True
    show ?thesis
    proof (cases "?c = 0")
      case True
      with "2.IH"(1) [OF refl _ refl True] nonneg show ?thesis
        by (simp add: cascade_simps Let_def transaction_frame_def exit_live_state_def)
    next
      case False
      with "2.IH"(2) [OF refl _ refl False] nonneg show ?thesis
        by (simp add: cascade_simps Let_def transaction_frame_def)
    qed
  qed
qed

definition transaction_flags_inv :: "document_model \<Rightarrow> bool" where
  "transaction_flags_inv d \<longleftrightarrow> (\<forall>x. 0 < transaction_count d x \<longrightarrow> in_transaction_state d x)"

definition live_flags_inv :: "document_model \<Rightarrow> bool" where
  "live_flags_inv d \<longleftrightarrow> (\<forall>x. 0 < live_count d x \<longrightarrow> is_live d x)"

lemma begin_transactions_flags:
  "transaction_flags_inv d \<Longrightarrow> transaction_flags_inv (begin_transactions todo d)"
proof (induction todo d rule: begin_transactions.induct)
  case (1 d)
  then show ?case by (simp add: cascade_simps)
next
  case (2 x todo d)
  show ?case
  proof (cases "dict_get (transactions d) x 0 = 0")
    case True
    from "2.prems" have "transaction_flags_inv (enter_transaction_state x (d\<lparr>transactions := dict_set (transactions d) x 1\<rparr>))"
      by (auto simp add: transaction_flags_inv_def transaction_count_def dict_get_set enter_transaction_state_def)
    with "2.IH"(1) [OF refl refl True] True show ?thesis
      by (simp add: cascade_simps Let_def)
  next
    case False
    from "2.prems" False have "transaction_flags_inv (d\<lparr>transactions := dict_set (transactions d) x (dict_get (transactions d) x 0 + 1)\<rparr>)"
      by (auto simp add: transaction_flags_inv_def transaction_count_def dict_get_set)
    with "2.IH"(2) [OF refl refl False] False show ?thesis
      by (simp add: cascade_simps Let_def)
  qed
qed

lemma end_transactions_flags:
  "transaction_flags_inv d \<Longrightarrow> \<forall>x. Exit x \<in> set ts \<longrightarrow> transaction_count d x \<le> 0 \<Longrightarrow>
   transaction_flags_inv (outcome_state (end_transactions ts d))"
proof (induction ts d rule: end_transactions.induct)
  case (1 d)
  then show ?case by (simp add: cascade_simps)
next
  case (2 x todo d)
  from "2.prems" have "transaction_flags_inv (exit_transaction_state x d)"
    by (auto simp add: transaction_flags_inv_def exit_transaction_state_def transaction_count_def)
  moreover from "2.prems" have "\<forall>y. Exit y \<in> set todo \<longrightarrow> transaction_count (exit_transaction_state x d) y \<le> 0"
    by simp
  ultimately show ?case using "2.IH" by (simp add: cascade_simps)
next
  case (3 x todo d)
  let ?c = "dict_get (transactions d) x 0 - 1"
  let ?d1 = "d\<lparr>transactions := dict_set (transactions d) x ?c\<rparr>"
  show ?case
  proof (cases "0 \<le> ?c")
    case False
    with "3.prems" show ?thesis by (simp add: cascade_simps Let_def)
  next
    case nonneg: True
    from "3.prems"(1) have inv1: "transaction_flags_inv ?d1"
      by (auto simp add: transaction_flags_inv_def transaction_count_def dict_get_set)
    from "3.prems"(2) nonneg have pending: "\<forall>y. Exit y \<in> set todo \<longrightarrow> transaction_count ?d1 y \<le> 0"
      by (auto simp add: transaction_count_def dict_get_set)
    show ?thesis
    proof (cases "?c = 0")
      case True
      from pending True have "\<forall>y. Exit y \<in> set (map End (get_dependent_data_items ?d1 x) @ Exit x # todo)
          \<longrightarrow> transaction_count ?d1 y \<le> 0"
        by (auto simp add: dict_get_set)
      from "3.IH"(1) [OF refl _ refl True inv1 this] nonneg True show ?thesis
        by (simp add: cascade_simps Let_def)
    next
      case False
      from "3.IH"(2) [OF refl _ refl False inv1 pending] nonneg False show ?thesis
        by (simp add: cascade_simps Let_def)
    qed
  qed
qed

lemma begin_lives_flags:
  "live_flags_inv d \<Longrightarrow> live_flags_inv (begin_lives todo d)"
proof (induction todo d rule: begin_lives.induct)
  case (1 d)
  then show ?case by (simp add: cascade_simps)
next
  case (2 x todo d)
  show ?case
  proof (cases "dict_get (live_data_items d) x 0 = 0")
    case True
    from "2.prems" have "live_flags_inv (enter_live_state x (d\<lparr>live_data_items := dict_set (live_data_items d) x 1\<rparr>))"
      by (auto simp add: live_flags_inv_def live_count_def dict_get_set enter_live_state_def)
    with "2.IH"(1) [OF refl refl True] True show ?thesis
      by (simp add: cascade_simps Let_def)
  next
    case False
    from "2.prems" False have "live_flags_inv (d\<lparr>live_data_items := dict_set (live_data_items d) x (dict_get (live_data_items d) x 0 + 1)\<rparr>)"
      by (auto simp add: live_flags_inv_def live_count_def dict_get_set)
    with "2.IH"(2) [OF refl refl False] False show ?thesis
      by (simp add: cascade_simps Let_def)
  qed
qed

lemma end_lives_flags:
  "live_flags_inv d \<Longrightarrow> live_flags_inv (outcome_state (end_lives ts d))"
proof (induction ts d rule: end_lives.induct)
  case (1 d)
  then show ?case by (simp add: cascade_simps)
next
  case (2 x todo d)
  let ?c = "dict_get (live_data_items d) x 0 - 1"
  let ?d1 = "d\<lparr>live_data_items := dict_set (live_data_items d) x ?c\<rparr>"
  show ?case
  proof (cases "0 \<le> ?c")
    case False
    with "2.prems" show ?thesis by (simp add: cascade_simps Let_def)
  next
    case nonneg: True
    show ?thesis
    proof (cases "?c = 0")
      case True
      from "2.prems" True have "live_flags_inv (exit_live_state x ?d1)"
        by (auto simp add: live_flags_inv_def live_count_def dict_get_set exit_live_state_def)
      from "2.IH"(1) [OF refl _ refl True this] nonneg True show ?thesis
        by (simp add: cascade_simps Let_def)
    next
      case False
      from "2.prems" have "live_flags_inv ?d1"
        by (auto simp add: live_flags_inv_def live_count_def dict_get_set)
      from "2.IH"(2) [OF refl _ refl False this] nonneg False show ?thesis
        by (simp add: cascade_simps Let_def)
    qed
  qed
qed


lemma transaction_frame_flags:
  "transaction_frame d d' \<Longrightarrow> transaction_flags_inv d \<Longrightarrow> transaction_flags_inv d'"
  by (simp add: transaction_frame_def transaction_flags_inv_def transaction_count_def)

lemma live_frame_flags:
  "live_frame d d' \<Longrightarrow> live_flags_inv d \<Longrightarrow> live_flags_inv d'"
  by (simp add: live_frame_def live_flags_inv_def live_count_def)

definition flags_inv :: "document_model \<Rightarrow> bool" where
  "flags_inv d \<longleftrightarrow> transaction_flags_inv d \<and> live_flags_inv d"

definition with_edge :: "document_model \<Rightarrow> data_item \<Rightarrow> data_item \<Rightarrow> document_model" where
  "with_edge d s t =
    (let d1 = d\<lparr>dependent_data_items := dict_setdefault (dependent_data_items d) s []\<rparr>;
         d2 = d1\<lparr>dependent_data_items := dict_set (dependent_data_items d1) s
                     (dict_get (dependent_data_items d1) s [] @ [t])\<rparr>;
         d3 = d2\<lparr>source_data_items := dict_setdefault (source_data_items d2) t []\<rparr>
     in d3\<lparr>source_data_items := dict_set (source_data_items d3) t
                     (dict_get (source_data_items d3) t [] @ [s])\<rparr>)"

lemma add_dependency_eq:
  "add_dependency d s t =
     (let d4 = with_edge d s t;
          d5 = (if in_transaction_state d s then begin_data_item_transaction d4 t else d4)
      in if is_live d s then begin_data_item_live d5 t else d5)"
proof -
  have "is_live (begin_data_item_transaction (with_edge d s t) t) = is_live (with_edge d s t)"
    using begin_transactions_frame [of "with_edge d s t" "[t]"]
    by (simp add: live_frame_def begin_data_item_transaction_def)
  moreover have "is_live (with_edge d s t) = is_live d"
    "in_transaction_state (with_edge d s t) = in_transaction_state d"
    by (simp_all add: with_edge_def Let_def)
  moreover have "add_dependency d s t =
     (let d4 = with_edge d s t;
          d5 = (if in_transaction_state d4 s then begin_data_item_transaction d4 t else d4)
      in if is_live d5 s then begin_data_item_live d5 t else d5)"
    unfolding add_dependency_def with_edge_def Let_def by (rule refl)
  ultimately show ?thesis by (simp add: Let_def)
qed

lemma dict_get_setdefault: "dict_get (dict_setdefault al k dflt) k' dflt = dict_get al k' dflt"
  by (auto simp: dict_get_def dict_setdefault_def map_add_def split: option.splits)

lemma with_edge_dependents:
  "get_dependent_data_items (with_edge d s t) x =
     (if x = s then get_dependent_data_items d s @ [t] else get_dependent_data_items d x)"
  by (simp add: with_edge_def Let_def get_dependent_data_items_def dict_get_set dict_get_setdefault)

lemma with_edge_sources:
  "get_source_data_items (with_edge d s t) x =
     (if x = t then get_source_data_items d t @ [s] else get_source_data_items d x)"
  by (simp add: with_edge_def Let_def get_source_data_items_def dict_get_set dict_get_setdefault)

lemma begin_transaction_count_grows:
  "transaction_count d t < transaction_count (begin_data_item_transaction d t) t"
proof (cases "dict_get (transactions d) t 0 = 0")
  case True
  let ?d1 = "enter_transaction_state t (d\<lparr>transactions := dict_set (transactions d) t 1\<rparr>)"
  have "transaction_count ?d1 t \<le> transaction_count (begin_transactions (get_dependent_data_items d t) ?d1) t"
    by (rule begin_transactions_mono)
  moreover have "transaction_count ?d1 t = 1" by (simp add: dict_get_set)
  moreover have "transaction_count d t = 0" using True by (simp add: transaction_count_def)
  moreover have "begin_data_item_transaction d t = begin_transactions (get_dependent_data_items d t) ?d1"
    using True by (simp add: begin_data_item_transaction_def cascade_simps Let_def)
  ultimately show ?thesis by simp
next
  case False
  then show ?thesis
    by (simp add: begin_data_item_transaction_def cascade_simps Let_def dict_get_set transaction_count_def)
qed

lemma begin_lives_mono:
  "live_count d y \<le> live_count (begin_lives todo d) y"
proof (induction todo d rule: begin_lives.induct)
  case (1 d)
  then show ?case by (simp add: cascade_simps)
next
  case (2 x todo d)
  show ?case
  proof (cases "dict_get (live_data_items d) x 0 = 0")
    case True
    have "live_count d y \<le> live_count (enter_live_state x (d\<lparr>live_data_items := dict_set (live_data_items d) x 1\<rparr>)) y"
      using True by (simp add: dict_get_set live_count_def enter_live_state_def)
    with "2.IH"(1) [OF refl refl True] True show ?thesis
      by (simp add: cascade_simps Let_def)
  next
    case False
    have "live_count d y \<le> live_count (d\<lparr>live_data_items := dict_set (live_data_items d) x (dict_get (live_data_items d) x 0 + 1)\<rparr>) y"
      by (simp add: dict_get_set live_count_def)
    with "2.IH"(2) [OF refl refl False] False show ?thesis
      by (simp add: cascade_simps Let_def)
  qed
qed

lemma begin_live_count_grows:
  "live_count d t < live_count (begin_data_item_live d t) t"
proof (cases "dict_get (live_data_items d) t 0 = 0")
  case True
  let ?d1 = "enter_live_state t (d\<lparr>live_data_items := dict_set (live_data_items d) t 1\<rparr>)"
  have "live_count ?d1 t \<le> live_count (begin_lives (get_dependent_data_items ?d1 t) ?d1) t"
    by (rule begin_lives_mono)
  moreover have "live_count ?d1 t = 1" by (simp add: dict_get_set)
  moreover have "live_count d t = 0" using True by (simp add: live_count_def)
  moreover have "begin_data_item_live d t = begin_lives (get_dependent_data_items ?d1 t) ?d1"
    using True by (simp add: begin_data_item_live_def cascade_simps Let_def)
  ultimately show ?thesis by simp
next
  case False
  then show ?thesis
    by (simp add: begin_data_item_live_def cascade_simps Let_def dict_get_set live_count_def)
qed


definition without_edge :: "document_model \<Rightarrow> data_item \<Rightarrow> data_item \<Rightarrow> document_model" where
  "without_edge d s t =
     d\<lparr>dependent_data_items := dict_set (dict_setdefault (dependent_data_items d) s []) s
         (remove1 t (dict_get (dependent_data_items d) s [])),
       source_data_items := dict_set (dict_setdefault (source_data_items d) t []) t
         (remove1 s (dict_get (source_data_items d) t []))\<rparr>"

lemma remove_dependency_present:
  assumes "t \<in> set (get_dependent_data_items d s)" "s \<in> set (get_source_data_items d t)"
  shows "remove_dependency d s t =
     (case (if in_transaction_state d s then end_data_item_transaction (without_edge d s t) t
            else Inr (without_edge d s t)) of
        Inl e \<Rightarrow> Inl e
      | Inr d5 \<Rightarrow> if is_live d s then end_data_item_live d5 t else Inr d5)"
proof -
  let ?d4 = "without_edge d s t"
  let ?r = "if in_transaction_state d s then end_data_item_transaction ?d4 t else Inr ?d4"
  have step: "remove_dependency d s t =
     (case ?r of Inl e \<Rightarrow> Inl e
      | Inr d5 \<Rightarrow> if is_live d5 s then end_data_item_live d5 t else Inr d5)"
    using assms
    by (simp add: remove_dependency_def Let_def list_remove_def get_dependent_data_items_def
        get_source_data_items_def dict_get_setdefault without_edge_def)
  have "live_frame ?d4 (outcome_state ?r)"
    using end_transactions_frame [of ?d4 "[End t]"]
    by (simp add: end_data_item_transaction_def live_frame_def)
  then have "is_live (outcome_state ?r) = is_live d"
    by (simp add: live_frame_def without_edge_def)
  then show ?thesis unfolding step by (cases ?r) simp_all
qed

definition counters_frame :: "document_model \<Rightarrow> document_model \<Rightarrow> bool" where
  "counters_frame d d' \<longleftrightarrow> transactions d' = transactions d \<and>
     in_transaction_state d' = in_transaction_state d \<and>
     live_data_items d' = live_data_items d \<and> is_live d' = is_live d"

lemma remove_dependency_absent:
  assumes "t \<notin> set (get_dependent_data_items d s) \<or> s \<notin> set (get_source_data_items d t)"
  shows "\<exists>d1. remove_dependency d s t = Inl (ValueError, d1) \<and> counters_frame d d1"
  using assms
  by (auto simp add: remove_dependency_def Let_def list_remove_def get_dependent_data_items_def
      get_source_data_items_def dict_get_setdefault dict_get_set counters_frame_def)

lemma end_transactions_mono:
  "transaction_count (outcome_state (end_transactions ts d)) y \<le> transaction_count d y"
proof (induction ts d rule: end_transactions.induct)
  case (1 d)
  then show ?case by (simp add: cascade_simps)
next
  case (2 x todo d)
  then show ?case by (simp add: cascade_simps)
next
  case (3 x todo d)
  let ?c = "dict_get (transactions d) x 0 - 1"
  let ?d1 = "d\<lparr>transactions := dict_set (transactions d) x ?c\<rparr>"
  have le: "transaction_count ?d1 y \<le> transaction_count d y"
    by (simp add: dict_get_set transaction_count_def)
  show ?case
  proof (cases "0 \<le> ?c")
    case False
    then show ?thesis by (simp add: cascade_simps Let_def)
  next
    case nonneg: True
    show ?thesis
    proof (cases "?c = 0")
      case True
      from "3.IH"(1) [OF refl _ refl True] nonneg le True show ?thesis
        by (simp add: cascade_simps Let_def)
    next
      case False
      from "3.IH"(2) [OF refl _ refl False] nonneg le False show ?thesis
        by (simp add: cascade_simps Let_def)
    qed
  qed
qed

lemma end_transaction_count_shrinks:
  assumes "end_data_item_transaction d t = Inr d'"
  shows "transaction_count d' t < transaction_count d t"
proof -
  let ?c = "dict_get (transactions d) t 0 - 1"
  let ?d1 = "d\<lparr>transactions := dict_set (transactions d) t ?c\<rparr>"
  let ?ts = "if ?c = 0 then map End (get_dependent_data_items d t) @ [Exit t] else []"
  from assms have nonneg: "0 \<le> ?c"
    by (auto simp add: end_data_item_transaction_def cascade_simps Let_def split: if_splits)
  with assms have "end_transactions ?ts ?d1 = Inr d'"
    by (auto simp add: end_data_item_transaction_def cascade_simps Let_def split: if_splits)
  with end_transactions_mono [of ?ts ?d1 t] have "transaction_count d' t \<le> transaction_count ?d1 t"
    by simp
  then show ?thesis by (simp add: dict_get_set transaction_count_def)
qed

lemma end_lives_mono:
  "live_count (outcome_state (end_lives ts d)) y \<le> live_count d y"
proof (induction ts d rule: end_lives.induct)
  case (1 d)
  then show ?case by (simp add: cascade_simps)
next
  case (2 x todo d)
  let ?c = "dict_get (live_data_items d) x 0 - 1"
  let ?d1 = "d\<lparr>live_data_items := dict_set (live_data_items d) x ?c\<rparr>"
  have le: "live_count ?d1 y \<le> live_count d y"
    by (simp add: dict_get_set live_count_def)
  show ?case
  proof (cases "0 \<le> ?c")
    case False
    then show ?thesis by (simp add: cascade_simps Let_def)
  next
    case nonneg: True
    show ?thesis
    proof (cases "?c = 0")
      case True
      from "2.IH"(1) [OF refl _ refl True] nonneg le True show ?thesis
        by (simp add: cascade_simps Let_def)
    next
      case False
      from "2.IH"(2) [OF refl _ refl False] nonneg le False show ?thesis
        by (simp add: cascade_simps Let_def)
    qed
  qed
qed

lemma end_lives_not_live:
  "\<not> is_live d y \<Longrightarrow> \<not> is_live (outcome_state (end_lives ts d)) y"
proof (induction ts d rule: end_lives.induct)
  case (1 d)
  then show ?case by (simp add: cascade_simps)
next
  case (2 x todo d)
  let ?c = "dict_get (live_data_items d) x 0 - 1"
  let ?d1 = "d\<lparr>live_data_items := dict_set (live_data_items d) x ?c\<rparr>"
  show ?case
  proof (cases "0 \<le> ?c")
    case False
    with "2.prems" show ?thesis by (simp add: cascade_simps Let_def)
  next
    case nonneg: True
    show ?thesis
    proof (cases "?c = 0")
      case True
      from "2.prems" have "\<not> is_live (exit_live_state x ?d1) y"
        by (simp add: exit_live_state_def)
      from "2.IH"(1) [OF refl _ refl True this] nonneg True show ?thesis
        by (simp add: cascade_simps Let_def)
    next
      case False
      from "2.prems" have "\<not> is_live ?d1 y" by simp
      from "2.IH"(2) [OF refl _ refl False this] nonneg False show ?thesis
        by (simp add: cascade_simps Let_def)
    qed
  qed
qed

lemma end_live_effect:
  assumes "end_data_item_live d t = Inr d'"
  shows "live_count d' t < live_count d t \<and> (live_count d t = 1 \<longrightarrow> \<not> is_live d' t)"
proof -
  let ?c = "dict_get (live_data_items d) t 0 - 1"
  let ?d1 = "d\<lparr>live_data_items := dict_set (live_data_items d) t ?c\<rparr>"
  let ?d2 = "if ?c = 0 then exit_live_state t ?d1 else ?d1"
  let ?ts = "if ?c = 0 then get_dependent_data_items d t else []"
  from assms have nonneg: "0 \<le> ?c"
    by (auto simp add: end_data_item_live_def cascade_simps Let_def split: if_splits)
  with assms have run: "end_lives ?ts ?d2 = Inr d'"
    by (auto simp add: end_data_item_live_def cascade_simps Let_def split: if_splits)
  with end_lives_mono [of ?ts ?d2 t] have "live_count d' t \<le> live_count ?d2 t"
    by simp
  moreover have "live_count ?d2 t = live_count d t - 1"
    by (simp add: dict_get_set) (simp add: live_count_def)
  ultimately have less: "live_count d' t < live_count d t"
    by simp
  have "\<not> is_live d' t" if "live_count d t = 1"
  proof -
    from that have "\<not> is_live ?d2 t" by (simp add: live_count_def exit_live_state_def)
    from end_lives_not_live [OF this, of ?ts] run show ?thesis by simp
  qed
  with less show ?thesis by simp
qed


lemma counters_frame_flags: "counters_frame d d' \<Longrightarrow> flags_inv d \<Longrightarrow> flags_inv d'"
  by (simp add: counters_frame_def flags_inv_def transaction_flags_inv_def live_flags_inv_def
      transaction_count_def live_count_def)

lemma begin_data_item_transaction_flags:
  "flags_inv d \<Longrightarrow> flags_inv (begin_data_item_transaction d x)"
  unfolding flags_inv_def begin_data_item_transaction_def
  by (blast intro: begin_transactions_flags live_frame_flags begin_transactions_frame)

lemma end_data_item_transaction_flags:
  "flags_inv d \<Longrightarrow> flags_inv (outcome_state (end_data_item_transaction d x))"
  unfolding flags_inv_def end_data_item_transaction_def
  using end_transactions_flags [of d "[End x]"] live_frame_flags [OF end_transactions_frame [of d "[End x]"]]
  by simp

lemma begin_data_item_live_flags:
  "flags_inv d \<Longrightarrow> flags_inv (begin_data_item_live d x)"
  unfolding flags_inv_def begin_data_item_live_def
  by (blast intro: begin_lives_flags transaction_frame_flags begin_lives_frame)

lemma end_data_item_live_flags:
  "flags_inv d \<Longrightarrow> flags_inv (outcome_state (end_data_item_live d x))"
  unfolding flags_inv_def end_data_item_live_def
  by (blast intro: end_lives_flags transaction_frame_flags end_lives_frame)

lemma with_edge_frame: "counters_frame d (with_edge d s t)"
  by (simp add: counters_frame_def with_edge_def Let_def)

lemma without_edge_frame: "counters_frame d (without_edge d s t)"
  by (simp add: counters_frame_def without_edge_def)

lemma add_dependency_flags: "flags_inv d \<Longrightarrow> flags_inv (add_dependency d s t)"
  by (simp add: add_dependency_eq Let_def begin_data_item_transaction_flags
      begin_data_item_live_flags counters_frame_flags [OF with_edge_frame])

lemma remove_dependency_flags:
  assumes "flags_inv d"
  shows "flags_inv (outcome_state (remove_dependency d s t))"
proof (cases "t \<in> set (get_dependent_data_items d s) \<and> s \<in> set (get_source_data_items d t)")
  case False
  with remove_dependency_absent [of t d s] obtain d1 where
    "remove_dependency d s t = Inl (ValueError, d1)" "counters_frame d d1" by auto
  with assms show ?thesis by (simp add: counters_frame_flags)
next
  case True
  let ?d4 = "without_edge d s t"
  let ?r = "if in_transaction_state d s then end_data_item_transaction ?d4 t else Inr ?d4"
  from assms have d4: "flags_inv ?d4" by (rule counters_frame_flags [OF without_edge_frame])
  then have r: "flags_inv (outcome_state ?r)"
    by (simp add: end_data_item_transaction_flags)
  show ?thesis
  proof (cases ?r)
    case (Inl a)
    with r True show ?thesis
      by (cases a) (simp add: remove_dependency_present del: if_split cong: if_cong)
  next
    case (Inr d5)
    with r have "flags_inv d5" by simp
    then have "flags_inv (outcome_state (if is_live d s then end_data_item_live d5 t else Inr d5))"
      by (simp add: end_data_item_live_flags)
    with Inr True show ?thesis
      by (simp add: remove_dependency_present del: if_split cong: if_cong)
  qed
qed

lemma reachable_flags_inv: "reachable d \<Longrightarrow> flags_inv d"
proof (induction rule: reachable.induct)
  case initial
  show ?case
    by (simp add: flags_inv_def transaction_flags_inv_def live_flags_inv_def empty_document_def
        transaction_count_def live_count_def dict_get_def)
next
  case (begin_transaction d x)
  then show ?case by (simp add: begin_data_item_transaction_flags)
next
  case (end_transaction d x)
  then show ?case by (simp add: end_data_item_transaction_flags)
next
  case (begin_live d x)
  then show ?case by (simp add: begin_data_item_live_flags)
next
  case (end_live d x)
  then show ?case by (simp add: end_data_item_live_flags)
next
  case (add_edge d s t)
  then show ?case by (simp add: add_dependency_flags)
next
  case (remove_edge d s t)
  then show ?case by (simp add: remove_dependency_flags)
qed


lemma add_dependency_effect:
  assumes "reachable d"
  shows "get_dependent_data_items (add_dependency d s t) s = get_dependent_data_items d s @ [t]"
    and "get_source_data_items (add_dependency d s t) t = get_source_data_items d t @ [s]"
    and "in_transaction_state d s \<Longrightarrow>
      in_transaction_state (add_dependency d s t) t \<and>
      transaction_count d t < transaction_count (add_dependency d s t) t"
    and "is_live d s \<Longrightarrow>
      is_live (add_dependency d s t) t \<and> live_count d t < live_count (add_dependency d s t) t"
proof -
  define d4 where "d4 = with_edge d s t"
  define d5 where "d5 = (if in_transaction_state d s then begin_data_item_transaction d4 t else d4)"
  define d' where "d' = (if is_live d s then begin_data_item_live d5 t else d5)"
  have eq: "add_dependency d s t = d'"
    by (simp add: add_dependency_eq Let_def d'_def d5_def d4_def)
  have f4: "counters_frame d d4" unfolding d4_def by (rule with_edge_frame)
  have f5: "live_frame d4 d5"
    using begin_transactions_frame [of d4 "[t]"]
    by (cases "in_transaction_state d s") (simp_all add: d5_def begin_data_item_transaction_def live_frame_def)
  have f': "transaction_frame d5 d'"
    using begin_lives_frame [of d5 "[t]"]
    by (cases "is_live d s") (simp_all add: d'_def begin_data_item_live_def transaction_frame_def)
  from assms have inv: "flags_inv d'"
    unfolding eq [symmetric] by (simp add: reachable_flags_inv add_dependency_flags)
  have nonneg: "0 \<le> transaction_count d t" "0 \<le> live_count d t"
    using reachable_counts_inv [OF assms]
    by (simp_all add: counts_inv_def transaction_count_def live_count_def nonneg_counts_get)
  from f5 f' have "dependent_data_items d' = dependent_data_items d4"
    "source_data_items d' = source_data_items d4"
    by (simp_all add: live_frame_def transaction_frame_def)
  then have "get_dependent_data_items d' s = get_dependent_data_items d4 s"
    "get_source_data_items d' t = get_source_data_items d4 t"
    by (simp_all add: get_dependent_data_items_def get_source_data_items_def)
  then show "get_dependent_data_items (add_dependency d s t) s = get_dependent_data_items d s @ [t]"
    and "get_source_data_items (add_dependency d s t) t = get_source_data_items d t @ [s]"
    unfolding eq by (simp_all add: d4_def with_edge_dependents with_edge_sources)
  {
    assume src: "in_transaction_state d s"
    have "transaction_count d4 t < transaction_count d5 t"
      using src by (simp add: d5_def begin_transaction_count_grows)
    moreover have "transaction_count d4 t = transaction_count d t"
      using f4 by (simp add: counters_frame_def transaction_count_def)
    moreover have "transaction_count d' t = transaction_count d5 t"
      using f' by (simp add: transaction_frame_def transaction_count_def)
    ultimately have less: "transaction_count d t < transaction_count d' t"
      by simp
    with nonneg have "0 < transaction_count d' t" by simp
    with inv have "in_transaction_state d' t"
      by (simp add: flags_inv_def transaction_flags_inv_def)
    with less show "in_transaction_state (add_dependency d s t) t \<and>
      transaction_count d t < transaction_count (add_dependency d s t) t" unfolding eq by simp
  }
  {
    assume src: "is_live d s"
    have "live_count d5 t < live_count d' t"
      using src by (simp add: d'_def begin_live_count_grows)
    moreover have "live_count d4 t = live_count d t"
      using f4 by (simp add: counters_frame_def live_count_def)
    moreover have "live_count d5 t = live_count d4 t"
      using f5 by (simp add: live_frame_def live_count_def)
    ultimately have less: "live_count d t < live_count d' t"
      by simp
    with nonneg have "0 < live_count d' t" by simp
    with inv have "is_live d' t"
      by (simp add: flags_inv_def live_flags_inv_def)
    with less show "is_live (add_dependency d s t) t \<and>
      live_count d t < live_count (add_dependency d s t) t" unfolding eq by simp
  }
qed

lemma without_edge_dependents:
  "get_dependent_data_items (without_edge d s t) s = remove1 t (get_dependent_data_items d s)"
  by (simp add: without_edge_def get_dependent_data_items_def dict_get_set)

lemma without_edge_sources:
  "get_source_data_items (without_edge d s t) t = remove1 s (get_source_data_items d t)"
  by (simp add: without_edge_def get_source_data_items_def dict_get_set)

lemma remove_dependency_effect:
  assumes run: "remove_dependency d s t = Inr d'"
  shows "get_dependent_data_items d' s = remove1 t (get_dependent_data_items d s)"
    and "get_source_data_items d' t = remove1 s (get_source_data_items d t)"
    and "in_transaction_state d s \<Longrightarrow>
      transaction_count d' t < transaction_count d t \<and>
      (transaction_count d t = 1 \<longrightarrow> \<not> in_transaction_state d' t)"
    and "is_live d s \<Longrightarrow>
      live_count d' t < live_count d t \<and> (live_count d t = 1 \<longrightarrow> \<not> is_live d' t)"
proof -
  define d4 where "d4 = without_edge d s t"
  define r where "r = (if in_transaction_state d s then end_data_item_transaction d4 t else Inr d4)"
  from run remove_dependency_absent [of t d s]
  have present: "t \<in> set (get_dependent_data_items d s)" "s \<in> set (get_source_data_items d t)"
    by auto
  have eq: "remove_dependency d s t =
     (case r of Inl e \<Rightarrow> Inl e
      | Inr d5 \<Rightarrow> if is_live d s then end_data_item_live d5 t else Inr d5)"
    unfolding r_def d4_def by (rule remove_dependency_present [OF present])
  from run eq obtain d5 where r: "r = Inr d5"
    and d': "(if is_live d s then end_data_item_live d5 t else Inr d5) = Inr d'"
    by (cases r) (simp_all del: if_split cong: if_cong)
  have f4: "counters_frame d d4" unfolding d4_def by (rule without_edge_frame)
  have f5: "live_frame d4 d5"
    using end_transactions_frame [of d4 "[End t]"] r
    by (cases "in_transaction_state d s")
      (simp_all add: r_def end_data_item_transaction_def live_frame_def)
  have f': "transaction_frame d5 d'"
    using end_lives_frame [of d5 "[t]"] d'
    by (cases "is_live d s") (simp_all add: end_data_item_live_def transaction_frame_def)
  from f5 f' have "dependent_data_items d' = dependent_data_items d4"
    "source_data_items d' = source_data_items d4"
    by (simp_all add: live_frame_def transaction_frame_def)
  then have "get_dependent_data_items d' s = get_dependent_data_items d4 s"
    "get_source_data_items d' t = get_source_data_items d4 t"
    by (simp_all add: get_dependent_data_items_def get_source_data_items_def)
  then show "get_dependent_data_items d' s = remove1 t (get_dependent_data_items d s)"
    and "get_source_data_items d' t = remove1 s (get_source_data_items d t)"
    by (simp_all add: d4_def without_edge_dependents without_edge_sources)
  have c4: "transaction_count d4 t = transaction_count d t" "live_count d4 t = live_count d t"
    using f4 by (simp_all add: counters_frame_def transaction_count_def live_count_def)
  have c5: "live_count d5 t = live_count d4 t"
    using f5 by (simp add: live_frame_def live_count_def)
  have c': "transaction_count d' t = transaction_count d5 t"
    "in_transaction_state d' t = in_transaction_state d5 t"
    using f' by (simp_all add: transaction_frame_def transaction_count_def)
  {
    assume src: "in_transaction_state d s"
    with r have e: "end_data_item_transaction d4 t = Inr d5" by (simp add: r_def)
    from end_transaction_count_shrinks [OF e] c4 c'
    have less: "transaction_count d' t < transaction_count d t" by simp
    have "\<not> in_transaction_state d' t" if "transaction_count d t = 1"
      using end_transaction_one [OF _ e] that c4 c' by auto
    with less show "transaction_count d' t < transaction_count d t \<and>
      (transaction_count d t = 1 \<longrightarrow> \<not> in_transaction_state d' t)" by simp
  }
  {
    assume src: "is_live d s"
    with d' have e: "end_data_item_live d5 t = Inr d'" by simp
    from end_live_effect [OF e] c4 c5
    show "live_count d' t < live_count d t \<and> (live_count d t = 1 \<longrightarrow> \<not> is_live d' t)" by simp
  }
qed

theorem dependency_edge_propagates_state:
  assumes "reachable d"
  shows "(let d' = add_dependency d s t in
       get_dependent_data_items d' s = get_dependent_data_items d s @ [t] \<and>
       get_source_data_items d' t = get_source_data_items d t @ [s] \<and>
       (in_transaction_state d s \<longrightarrow>
          in_transaction_state d' t \<and> transaction_count d t < transaction_count d' t) \<and>
       (is_live d s \<longrightarrow> is_live d' t \<and> live_count d t < live_count d' t)) \<and>
    (\<forall>d'. remove_dependency d s t = Inr d' \<longrightarrow>
       get_dependent_data_items d' s = remove1 t (get_dependent_data_items d s) \<and>
       get_source_data_items d' t = remove1 s (get_source_data_items d t) \<and>
       (in_transaction_state d s \<longrightarrow>
          transaction_count d' t < transaction_count d t \<and>
          (transaction_count d t = 1 \<longrightarrow> \<not> in_transaction_state d' t)) \<and>
       (is_live d s \<longrightarrow>
          live_count d' t < live_count d t \<and> (live_count d t = 1 \<longrightarrow> \<not> is_live d' t)))"
  using add_dependency_effect [OF assms, of s t] remove_dependency_effect [of d s t]
  unfolding Let_def by blast


definition acquiring_document :: document_model where
  "acquiring_document =
     begin_data_item_live (begin_data_item_transaction (add_dependency empty_document 1 2) 1) 1"

lemma acquiring_document_eq:
  "acquiring_document =
     \<lparr>dependent_data_items = [(1, [2])], source_data_items = [(2, [1])],
      transactions = [(1, 1), (2, 1)], live_data_items = [(1, 1), (2, 1)],
      in_transaction_state = (\<lambda>_. False)(1 := True, 2 := True),
      is_live = (\<lambda>_. False)(1 := True, 2 := True),
      events = [EnterTransaction 1, EnterTransaction 2, EnterLive 1, EnterLive 2]\<rparr>"
  by (simp add: acquiring_document_def add_dependency_def empty_document_def Let_def
      dict_setdefault_def dict_set_def dict_get_def begin_data_item_transaction_def
      begin_data_item_live_def cascade_simps get_dependent_data_items_def
      enter_transaction_state_def enter_live_state_def)

lemma acquiring_document_remove:
  "remove_dependency acquiring_document 1 2 =
     Inr \<lparr>dependent_data_items = [(1, [])], source_data_items = [(2, [])],
      transactions = [(1, 1), (2, 0)], live_data_items = [(1, 1), (2, 0)],
      in_transaction_state = (\<lambda>_. False)(1 := True, 2 := False),
      is_live = (\<lambda>_. False)(1 := True, 2 := False),
      events = [EnterTransaction 1, EnterTransaction 2, EnterLive 1, EnterLive 2,
        ExitTransaction 2, ExitLive 2]\<rparr>"
  by (simp add: acquiring_document_eq remove_dependency_def Let_def list_remove_def
      dict_setdefault_def dict_set_def dict_get_def end_data_item_transaction_def
      end_data_item_live_def cascade_simps get_dependent_data_items_def
      exit_transaction_state_def exit_live_state_def fun_upd_twist)

theorem dependency_edge_propagates_state_witness:
  "reachable acquiring_document \<and>
   in_transaction_state acquiring_document 1 \<and> is_live acquiring_document 1 \<and>
   transaction_count acquiring_document 2 = 1 \<and> live_count acquiring_document 2 = 1 \<and>
   in_transaction_state (add_dependency acquiring_document 1 2) 2 \<and>
   1 < transaction_count (add_dependency acquiring_document 1 2) 2 \<and>
   is_live (add_dependency acquiring_document 1 2) 2 \<and>
   1 < live_count (add_dependency acquiring_document 1 2) 2 \<and>
   (\<exists>d'. remove_dependency acquiring_document 1 2 = Inr d' \<and>
      transaction_count d' 2 < 1 \<and> \<not> in_transaction_state d' 2 \<and>
      live_count d' 2 < 1 \<and> \<not> is_live d' 2)"
proof -
  have r: "reachable acquiring_document"
    unfolding acquiring_document_def
    by (intro reachable.begin_live reachable.begin_transaction reachable.add_edge reachable.initial)
  have h: "in_transaction_state acquiring_document 1" "is_live acquiring_document 1"
    "transaction_count acquiring_document 2 = 1" "live_count acquiring_document 2 = 1"
    by (simp_all add: acquiring_document_eq transaction_count_def live_count_def dict_get_def)
  from dependency_edge_propagates_state [OF r, of 1 2] h r acquiring_document_remove
  show ?thesis unfolding Let_def by auto
qed

end
